theory Spec2Isabelle
  imports Complex_Main "HOL-Library.Multiset"
begin

section \<open>Data model\<close>

text \<open>
  A detection is the seven-element list
  \<^verbatim>\<open>[x1, y1, x2, y2, confidence, class_id, class_name]\<close> that
  \<^verbatim>\<open>run_yolov8_inference\<close> builds and every other function unpacks.
  Python's numbers (\<^verbatim>\<open>int\<close> coordinates, \<^verbatim>\<open>float\<close> confidences, timestamps and
  quotients) are read as exact reals: rounding of the floating-point operations is not
  part of this model.
\<close>

record detection =
  x1 :: real
  y1 :: real
  x2 :: real
  y2 :: real
  conf :: real
  cls_id :: int
  class_name :: string

text \<open>The exceptions the modelled code could raise.\<close>

datatype py_error = ZeroDivisionError | IndexError

text \<open>Python's \<^verbatim>\<open>int(r)\<close> on a float truncates towards zero.\<close>

definition py_int :: "real \<Rightarrow> int" where
  "py_int r = (if 0 \<le> r then \<lfloor>r\<rfloor> else \<lceil>r\<rceil>)"

text \<open>Python's \<^verbatim>\<open>a / b\<close> raises \<^verbatim>\<open>ZeroDivisionError\<close> when \<^verbatim>\<open>b\<close> is zero.\<close>

definition py_truediv :: "real \<Rightarrow> real \<Rightarrow> py_error + real" where
  "py_truediv a b = (if b = 0 then Inl ZeroDivisionError else Inr (a / b))"

section \<open>Dead-reckoning predictor (\<^verbatim>\<open>Thesis/deadReckoning_pred.py\<close>)\<close>

text \<open>
  \<^verbatim>\<open>self.last_positions\<close> is a dictionary from the class id to the tuple
  \<^verbatim>\<open>(current_x, current_y, timestamp)\<close> of the last sighting.
\<close>

type_synonym last_positions = "int \<rightharpoonup> (int \<times> int \<times> real)"

text \<open>
  \<^verbatim>\<open>(current - last) / time_delta if time_delta > 0 else 0\<close>, the expression of
  lines 119 and 120.
\<close>

definition velocity :: "int \<Rightarrow> int \<Rightarrow> real \<Rightarrow> py_error + real" where
  "velocity current_pos last_pos time_delta =
     (if time_delta > 0 then py_truediv (real_of_int (current_pos - last_pos)) time_delta
      else Inr 0)"

text \<open>
  \<^verbatim>\<open>apply_dead_reckoning(self, det, timestamp)\<close>: the dictionary is passed in and the
  updated dictionary is returned beside the four positions. An exception leaves the
  dictionary as it was (the store of line 123 comes last).
\<close>

definition apply_dead_reckoning ::
  "last_positions \<Rightarrow> detection \<Rightarrow> real \<Rightarrow>
     py_error + ((int \<times> int \<times> int \<times> int) \<times> last_positions)" where
  "apply_dead_reckoning last_positions det timestamp =
     (let current_x = py_int ((x1 det + x2 det) / 2);
          current_y = py_int ((y1 det + y2 det) / 2);
          last_info = (case last_positions (cls_id det) of
                         None \<Rightarrow> (current_x, current_y, timestamp)
                       | Some info \<Rightarrow> info);
          time_delta = timestamp - snd (snd last_info)
      in case velocity current_x (fst last_info) time_delta of
           Inl e \<Rightarrow> Inl e
         | Inr velocity_x \<Rightarrow>
             (case velocity current_y (fst (snd last_info)) time_delta of
                Inl e \<Rightarrow> Inl e
              | Inr velocity_y \<Rightarrow>
                  (let future_x = py_int (real_of_int current_x + velocity_x * time_delta);
                       future_y = py_int (real_of_int current_y + velocity_y * time_delta)
                   in Inr ((current_x, current_y, future_x, future_y),
                           last_positions(cls_id det \<mapsto> (current_x, current_y, timestamp))))))"

text \<open>
  Two successive calls on one tracker, as \<^verbatim>\<open>process_detection\<close> makes them frame after
  frame: the positions returned by the second call, on the dictionary the first call left.
\<close>

definition second_sighting ::
  "last_positions \<Rightarrow> detection \<Rightarrow> real \<Rightarrow> detection \<Rightarrow> real \<Rightarrow>
     py_error + (int \<times> int \<times> int \<times> int)" where
  "second_sighting last_positions det1 timestamp1 det2 timestamp2 =
     (case apply_dead_reckoning last_positions det1 timestamp1 of
        Inl e \<Rightarrow> Inl e
      | Inr (positions1, last_positions1) \<Rightarrow>
          (case apply_dead_reckoning last_positions1 det2 timestamp2 of
             Inl e \<Rightarrow> Inl e
           | Inr (positions2, last_positions2) \<Rightarrow> Inr positions2))"

section \<open>Proximity predicates (\<^verbatim>\<open>utilsNeeded.py\<close>)\<close>

text \<open>
  The distance of line 169 between the centres of a target box and an object box;
  \<^verbatim>\<open>** 0.5\<close> of a sum of two squares is the square root.
\<close>

definition center_distance :: "detection \<Rightarrow> detection \<Rightarrow> real" where
  "center_distance target_det obj_det =
     (let center_target_x = (x1 target_det + x2 target_det) / 2;
          center_target_y = (y1 target_det + y2 target_det) / 2;
          center_obj_x = (x1 obj_det + x2 obj_det) / 2;
          center_obj_y = (y1 obj_det + y2 obj_det) / 2
      in sqrt ((center_obj_x - center_target_x)\<^sup>2 + (center_obj_y - center_target_y)\<^sup>2))"

text \<open>The inner loop of \<^verbatim>\<open>check_proximity_simple\<close> over the object detections.\<close>

fun proximity_inner :: "detection \<Rightarrow> detection list \<Rightarrow> real \<Rightarrow> bool" where
  "proximity_inner target_det [] proximity_threshold = False"
| "proximity_inner target_det (obj_det # rest) proximity_threshold =
     (if center_distance target_det obj_det \<le> proximity_threshold then True
      else proximity_inner target_det rest proximity_threshold)"

fun check_proximity_simple :: "detection list \<Rightarrow> detection list \<Rightarrow> real \<Rightarrow> bool" where
  "check_proximity_simple [] specific_object_detections proximity_threshold = False"
| "check_proximity_simple (target_det # rest) specific_object_detections proximity_threshold =
     (if proximity_inner target_det specific_object_detections proximity_threshold then True
      else check_proximity_simple rest specific_object_detections proximity_threshold)"

text \<open>\<^verbatim>\<open>check_proximity\<close>: some object box and some target box overlap in both axes.\<close>

definition boxes_intersect :: "detection \<Rightarrow> detection \<Rightarrow> bool" where
  "boxes_intersect target_det obj_det =
     (x1 obj_det < x2 target_det \<and> x2 obj_det > x1 target_det \<and>
      y1 obj_det < y2 target_det \<and> y2 obj_det > y1 target_det)"

fun overlap_inner :: "detection \<Rightarrow> detection list \<Rightarrow> bool" where
  "overlap_inner target_det [] = False"
| "overlap_inner target_det (obj_det # rest) =
     (if boxes_intersect target_det obj_det then True else overlap_inner target_det rest)"

fun check_proximity :: "detection list \<Rightarrow> detection list \<Rightarrow> bool" where
  "check_proximity [] specific_object_detections = False"
| "check_proximity (target_det # rest) specific_object_detections =
     (if overlap_inner target_det specific_object_detections then True
      else check_proximity rest specific_object_detections)"

text \<open>\<^verbatim>\<open>check_nearness\<close>: the four-way test of lines 223 to 226, one axis gap at a time.\<close>

definition near_without_overlap :: "detection \<Rightarrow> detection \<Rightarrow> bool" where
  "near_without_overlap target_det obj_det =
     ((x2 obj_det < x1 target_det \<and> x1 target_det - x2 obj_det \<le> 10) \<or>
      (x1 obj_det > x2 target_det \<and> x1 obj_det - x2 target_det \<le> 10) \<or>
      (y2 obj_det < y1 target_det \<and> y1 target_det - y2 obj_det \<le> 10) \<or>
      (y1 obj_det > y2 target_det \<and> y1 obj_det - y2 target_det \<le> 10))"

fun nearness_inner :: "detection \<Rightarrow> detection list \<Rightarrow> bool" where
  "nearness_inner target_det [] = False"
| "nearness_inner target_det (obj_det # rest) =
     (if near_without_overlap target_det obj_det then True else nearness_inner target_det rest)"

fun check_nearness :: "detection list \<Rightarrow> detection list \<Rightarrow> bool" where
  "check_nearness [] specific_object_detections = False"
| "check_nearness (target_det # rest) specific_object_detections =
     (if nearness_inner target_det specific_object_detections then True
      else check_nearness rest specific_object_detections)"

section \<open>Detection consolidation (\<^verbatim>\<open>utilsNeeded.consolidate_detections\<close>)\<close>

text \<open>
  The accumulator of one seed: the merged box \<^verbatim>\<open>cx1, cy1, cx2, cy2\<close> and the running
  confidence (the source reuses the seed's variable \<^verbatim>\<open>conf\<close> for it).
\<close>

record merged =
  cx1 :: real
  cy1 :: real
  cx2 :: real
  cy2 :: real
  cconf :: real

text \<open>Lines 269 to 277, for the accumulator and the candidate \<^verbatim>\<open>detections[j]\<close>.\<close>

definition inter_area :: "merged \<Rightarrow> detection \<Rightarrow> real" where
  "inter_area acc cand =
     (let inter_x1 = max (cx1 acc) (x1 cand);
          inter_y1 = max (cy1 acc) (y1 cand);
          inter_x2 = min (cx2 acc) (x2 cand);
          inter_y2 = min (cy2 acc) (y2 cand)
      in max 0 (inter_x2 - inter_x1) * max 0 (inter_y2 - inter_y1))"

definition union_area :: "merged \<Rightarrow> detection \<Rightarrow> real" where
  "union_area acc cand =
     (let area1 = (cx2 acc - cx1 acc) * (cy2 acc - cy1 acc);
          area2 = (x2 cand - x1 cand) * (y2 cand - y1 cand)
      in area1 + area2 - inter_area acc cand)"

definition iou :: "merged \<Rightarrow> detection \<Rightarrow> py_error + real" where
  "iou acc cand =
     (if union_area acc cand > 0 then py_truediv (inter_area acc cand) (union_area acc cand)
      else Inr 0)"

text \<open>The value of \<^verbatim>\<open>iou\<close> on line 277, as a number.\<close>

definition iou_value :: "merged \<Rightarrow> detection \<Rightarrow> real" where
  "iou_value acc cand =
     (if union_area acc cand > 0 then inter_area acc cand / union_area acc cand else 0)"

text \<open>Lines 283 to 285: the bounding union and the higher confidence.\<close>

definition merge_into :: "merged \<Rightarrow> detection \<Rightarrow> merged" where
  "merge_into acc cand =
     \<lparr>cx1 = min (cx1 acc) (x1 cand), cy1 = min (cy1 acc) (y1 cand),
      cx2 = max (cx2 acc) (x2 cand), cy2 = max (cy2 acc) (y2 cand),
      cconf = max (cconf acc) (conf cand)\<rparr>"

text \<open>
  The inner loop \<^verbatim>\<open>for j in range(i + 1, len(detections))\<close>, run over the list of the
  indices still to visit, on the accumulator and the \<^verbatim>\<open>used\<close> flags. An index outside
  either list would raise \<^verbatim>\<open>IndexError\<close>.
\<close>

fun inner_loop ::
  "detection list \<Rightarrow> real \<Rightarrow> nat list \<Rightarrow> merged \<times> bool list \<Rightarrow>
     py_error + (merged \<times> bool list)" where
  "inner_loop detections iou_threshold [] (acc, used) = Inr (acc, used)"
| "inner_loop detections iou_threshold (j # js) (acc, used) =
     (if length used \<le> j \<or> length detections \<le> j then Inl IndexError
      else if \<not> used ! j then
        (case iou acc (detections ! j) of
           Inl e \<Rightarrow> Inl e
         | Inr v \<Rightarrow>
             if v \<ge> iou_threshold
             then inner_loop detections iou_threshold js
                    (merge_into acc (detections ! j), used[j := True])
             else inner_loop detections iou_threshold js (acc, used))
      else inner_loop detections iou_threshold js (acc, used))"

text \<open>Line 259 and 261: the accumulator starts as the seed's own box and confidence.\<close>

definition seed_of :: "detection \<Rightarrow> merged" where
  "seed_of d = \<lparr>cx1 = x1 d, cy1 = y1 d, cx2 = x2 d, cy2 = y2 d, cconf = conf d\<rparr>"

text \<open>Line 288: the merged detection carries the seed's class id and name.\<close>

definition emit :: "merged \<Rightarrow> detection \<Rightarrow> detection" where
  "emit acc d =
     \<lparr>x1 = cx1 acc, y1 = cy1 acc, x2 = cx2 acc, y2 = cy2 acc, conf = cconf acc,
      cls_id = cls_id d, class_name = class_name d\<rparr>"

text \<open>
  The outer loop \<^verbatim>\<open>for i in range(len(detections))\<close> on the \<^verbatim>\<open>used\<close> flags and the
  list \<^verbatim>\<open>consolidated\<close>.
\<close>

fun outer_loop ::
  "detection list \<Rightarrow> real \<Rightarrow> nat list \<Rightarrow> bool list \<times> detection list \<Rightarrow>
     py_error + (bool list \<times> detection list)" where
  "outer_loop detections iou_threshold [] (used, consolidated) = Inr (used, consolidated)"
| "outer_loop detections iou_threshold (i # is) (used, consolidated) =
     (if length used \<le> i \<or> length detections \<le> i then Inl IndexError
      else if \<not> used ! i then
        (case inner_loop detections iou_threshold [Suc i..<length detections]
                (seed_of (detections ! i), used[i := True]) of
           Inl e \<Rightarrow> Inl e
         | Inr (acc, used') \<Rightarrow>
             outer_loop detections iou_threshold is
               (used', consolidated @ [emit acc (detections ! i)]))
      else outer_loop detections iou_threshold is (used, consolidated))"

text \<open>
  \<^verbatim>\<open>detections.sort(key=lambda x: x[4], reverse=True)\<close>: a stable sort by descending
  confidence (detections of equal confidence keep their order).
\<close>

definition sort_by_confidence :: "detection list \<Rightarrow> detection list" where
  "sort_by_confidence detections = sort_key (\<lambda>x. - conf x) detections"

text \<open>
  \<^verbatim>\<open>consolidate_detections(detections, iou_threshold)\<close>. The sort is in place, on the
  caller's list, so the model returns that list as the call leaves it, beside the
  function's result.
\<close>

definition consolidate_detections ::
  "detection list \<Rightarrow> real \<Rightarrow> detection list \<times> (py_error + detection list)" where
  "consolidate_detections detections iou_threshold =
     (if detections = [] then (detections, Inr [])
      else
        (let sorted_detections = sort_by_confidence detections
         in (sorted_detections,
             case outer_loop sorted_detections iou_threshold [0..<length sorted_detections]
                    (replicate (length sorted_detections) False, []) of
               Inl e \<Rightarrow> Inl e
             | Inr (used, consolidated) \<Rightarrow> Inr consolidated)))"

section \<open>Consolidation: what each output detection merged\<close>

text \<open>
  The source keeps no record of which detections went into a merged one; the \<^verbatim>\<open>used\<close>
  flags hold it for the time of one seed. The definitions of this section read it off
  them, to state properties of the merged detections against their contributors.
\<close>

text \<open>\<^verbatim>\<open>area2\<close> of line 275, for any detection.\<close>

definition box_area :: "detection \<Rightarrow> real" where
  "box_area d = (x2 d - x1 d) * (y2 d - y1 d)"

text \<open>
  The contributors of the seed \<^verbatim>\<open>detections[i]\<close>: the seed, then the detections whose
  flag the inner loop set (\<open>used\<close> before the inner loop, \<open>used'\<close> after it), in the
  order in which line 283 merged them.
\<close>

definition claimed :: "detection list \<Rightarrow> nat \<Rightarrow> bool list \<Rightarrow> bool list \<Rightarrow> detection list" where
  "claimed detections i used used' =
     detections ! i #
     map (\<lambda>j. detections ! j)
       (filter (\<lambda>j. used' ! j \<and> \<not> used ! j) [Suc i..<length detections])"

text \<open>
  The outer loop again, calling the same inner loop, with each merged detection paired
  with its contributors; \<open>outer_loop_groups_erase\<close> below shows that dropping the
  contributors gives \<^verbatim>\<open>consolidated\<close> as \<open>outer_loop\<close> computes it.
\<close>

fun outer_loop_groups ::
  "detection list \<Rightarrow> real \<Rightarrow> nat list \<Rightarrow> bool list \<times> (detection \<times> detection list) list \<Rightarrow>
     py_error + (bool list \<times> (detection \<times> detection list) list)" where
  "outer_loop_groups detections iou_threshold [] (used, groups) = Inr (used, groups)"
| "outer_loop_groups detections iou_threshold (i # is) (used, groups) =
     (if length used \<le> i \<or> length detections \<le> i then Inl IndexError
      else if \<not> used ! i then
        (case inner_loop detections iou_threshold [Suc i..<length detections]
                (seed_of (detections ! i), used[i := True]) of
           Inl e \<Rightarrow> Inl e
         | Inr (acc, used') \<Rightarrow>
             outer_loop_groups detections iou_threshold is
               (used', groups @ [(emit acc (detections ! i),
                                  claimed detections i (used[i := True]) used')]))
      else outer_loop_groups detections iou_threshold is (used, groups))"

definition consolidate_groups ::
  "detection list \<Rightarrow> real \<Rightarrow> py_error + (detection \<times> detection list) list" where
  "consolidate_groups detections iou_threshold =
     (if detections = [] then Inr []
      else
        (let sorted_detections = sort_by_confidence detections
         in case outer_loop_groups sorted_detections iou_threshold
                   [0..<length sorted_detections]
                   (replicate (length sorted_detections) False, []) of
              Inl e \<Rightarrow> Inl e
            | Inr (used, groups) \<Rightarrow> Inr groups))"

text \<open>The box of \<open>out\<close> contains the box of \<open>m\<close>; one accumulator box contains another.\<close>

definition covers :: "detection \<Rightarrow> detection \<Rightarrow> bool" where
  "covers out m = (x1 out \<le> x1 m \<and> y1 out \<le> y1 m \<and> x2 m \<le> x2 out \<and> y2 m \<le> y2 out)"

definition inside :: "merged \<Rightarrow> merged \<Rightarrow> bool" where
  "inside acc acc' =
     (cx1 acc' \<le> cx1 acc \<and> cy1 acc' \<le> cy1 acc \<and> cx2 acc \<le> cx2 acc' \<and> cy2 acc \<le> cy2 acc')"

text \<open>The detections whose \<^verbatim>\<open>used\<close> flag is set, as a multiset.\<close>

definition marked :: "detection list \<Rightarrow> bool list \<Rightarrow> detection multiset" where
  "marked detections used =
     mset (map (\<lambda>k. detections ! k) (filter (\<lambda>k. used ! k) [0..<length detections]))"

section \<open>Concrete inputs\<close>

text \<open>The two sightings of the end-to-end scenario, of class 5.\<close>

definition sighting1 :: "real \<Rightarrow> string \<Rightarrow> detection" where
  "sighting1 c n =
     \<lparr>x1 = 100, y1 = 100, x2 = 120, y2 = 120, conf = c, cls_id = 5, class_name = n\<rparr>"

definition sighting2 :: "real \<Rightarrow> string \<Rightarrow> detection" where
  "sighting2 c n =
     \<lparr>x1 = 110, y1 = 100, x2 = 130, y2 = 120, conf = c, cls_id = 5, class_name = n\<rparr>"

text \<open>A detection with the given box, for the scenarios on boxes only.\<close>

definition box_at :: "real \<Rightarrow> real \<Rightarrow> real \<Rightarrow> real \<Rightarrow> detection" where
  "box_at a b c d =
     \<lparr>x1 = a, y1 = b, x2 = c, y2 = d, conf = 9/10, cls_id = 0, class_name = ''person''\<rparr>"

text \<open>A detection with the given box and confidence.\<close>

definition scored :: "real \<Rightarrow> real \<Rightarrow> real \<Rightarrow> real \<Rightarrow> real \<Rightarrow> detection" where
  "scored a b c d k =
     \<lparr>x1 = a, y1 = b, x2 = c, y2 = d, conf = k, cls_id = 0, class_name = ''person''\<rparr>"

section \<open>Dead reckoning: properties\<close>

lemma py_int_of_int: "py_int (real_of_int n) = n"
  by (simp add: py_int_def)

lemma first_call_scenario:
  "apply_dead_reckoning Map.empty (sighting1 c n) t =
     Inr ((110, 110, 110, 110), [5 \<mapsto> (110, 110, t)])"
  by (simp add: apply_dead_reckoning_def sighting1_def velocity_def py_int_def Let_def)

lemma second_call_scenario:
  "apply_dead_reckoning [5 \<mapsto> (110, 110, t)] (sighting2 c n) (t + 1) =
     Inr ((120, 110, 130, 110), [5 \<mapsto> (120, 110, t + 1)])"
  by (simp add: apply_dead_reckoning_def sighting2_def velocity_def py_truediv_def
      py_int_def Let_def)

text \<open>
  C1, as the claim states it, fails: after the first sighting at (100,100)-(120,120) the
  second sighting at (110,100)-(130,120) one second later does not return the future
  centre (130,120).
\<close>

theorem scenario_future_not_130_120:
  "second_sighting Map.empty (sighting1 (9/10) ''car'') 0 (sighting2 (9/10) ''car'') 1
     \<noteq> Inr (120, 110, 130, 120)"
  using first_call_scenario [of "9/10" "''car''" 0]
    second_call_scenario [of 0 "9/10" "''car''"]
  by (simp add: second_sighting_def)

text \<open>
  C1, amended: whatever the time of the first sighting, the confidences and the class
  names, the second call returns the current centre (120,110) and the future centre
  (130,110): the drift of (10,0) per second carried on for one second.
\<close>

theorem scenario_future_130_110:
  "second_sighting Map.empty (sighting1 c n) t (sighting2 c' n') (t + 1)
     = Inr (120, 110, 130, 110)"
  using first_call_scenario [of c n t] second_call_scenario [of t c' n']
  by (simp add: second_sighting_def)

text \<open>
  C4: on the first call for a key (no entry for the detection's class in
  \<^verbatim>\<open>last_positions\<close>) the call succeeds, the future position it returns is the current
  position it returns, and that position is stored for the key.
\<close>

theorem first_sighting_future_is_current:
  assumes "last_positions (cls_id det) = None"
  shows "\<exists>current_x current_y.
           apply_dead_reckoning last_positions det timestamp =
             Inr ((current_x, current_y, current_x, current_y),
                  last_positions(cls_id det \<mapsto> (current_x, current_y, timestamp)))"
  using assms
  by (simp add: apply_dead_reckoning_def velocity_def py_int_of_int Let_def)

theorem first_sighting_future_is_current_witness:
  "(Map.empty :: last_positions) (cls_id (sighting1 (9/10) ''car'')) = None \<and>
   (\<exists>current_x current_y.
      apply_dead_reckoning Map.empty (sighting1 (9/10) ''car'') 7 =
        Inr ((current_x, current_y, current_x, current_y),
             Map.empty(cls_id (sighting1 (9/10) ''car'') \<mapsto> (current_x, current_y, 7))))"
  using first_sighting_future_is_current [of Map.empty "sighting1 (9/10) ''car''" 7]
  by simp

section \<open>Proximity predicates: properties\<close>

lemma proximity_inner_iff:
  "proximity_inner t bs thr \<longleftrightarrow> (\<exists>b\<in>set bs. center_distance t b \<le> thr)"
  by (induction bs) auto

lemma check_proximity_simple_iff:
  "check_proximity_simple ts bs thr \<longleftrightarrow>
     (\<exists>t\<in>set ts. \<exists>b\<in>set bs. center_distance t b \<le> thr)"
  by (induction ts) (auto simp: proximity_inner_iff)

lemma center_distance_commute: "center_distance t b = center_distance b t"
  by (simp add: center_distance_def Let_def power2_commute)

text \<open>
  C6: for one target box and one object box, a centre distance exactly at
  \<^verbatim>\<open>proximity_threshold\<close> makes \<^verbatim>\<open>check_proximity_simple\<close> return true; the result is the
  comparison of the distance with the threshold and nothing else, and the distance, hence
  the result, is the same when the two boxes change places.
\<close>

theorem proximity_boundary_inclusive:
  "(center_distance target_det obj_det = proximity_threshold \<longrightarrow>
      check_proximity_simple [target_det] [obj_det] proximity_threshold) \<and>
   check_proximity_simple [target_det] [obj_det] proximity_threshold =
     (center_distance target_det obj_det \<le> proximity_threshold) \<and>
   center_distance target_det obj_det = center_distance obj_det target_det \<and>
   check_proximity_simple [target_det] [obj_det] proximity_threshold =
     check_proximity_simple [obj_det] [target_det] proximity_threshold"
  using center_distance_commute [of target_det obj_det] by simp

lemma center_distance_3_4: "center_distance (box_at 0 0 0 0) (box_at 0 0 6 8) = 5"
proof -
  have "sqrt ((3::real)\<^sup>2 + 4\<^sup>2) = sqrt (5\<^sup>2)" by simp
  then show ?thesis by (simp add: center_distance_def box_at_def del: real_sqrt_abs)
qed

theorem proximity_boundary_inclusive_witness:
  "center_distance (box_at 0 0 0 0) (box_at 0 0 6 8) = 5 \<and>
   check_proximity_simple [box_at 0 0 0 0] [box_at 0 0 6 8] 5"
  using proximity_boundary_inclusive [of "box_at 0 0 0 0" "box_at 0 0 6 8" 5]
    center_distance_3_4
  by simp

lemma nearness_inner_iff:
  "nearness_inner t bs \<longleftrightarrow> (\<exists>b\<in>set bs. near_without_overlap t b)"
  by (induction bs) auto

lemma check_nearness_iff:
  "check_nearness ts bs \<longleftrightarrow> (\<exists>t\<in>set ts. \<exists>b\<in>set bs. near_without_overlap t b)"
  by (induction ts) (auto simp: nearness_inner_iff)

lemma intersect_not_near: "boxes_intersect t b \<Longrightarrow> \<not> near_without_overlap t b"
  by (auto simp: boxes_intersect_def near_without_overlap_def)

text \<open>
  A target at (0,0)-(10,10) and an object 5 pixels to its right and \<open>D\<close> pixels below
  it: the horizontal gap alone makes \<^verbatim>\<open>check_nearness\<close> true.
\<close>

lemma far_but_near:
  assumes "0 \<le> D"
  shows "\<not> check_proximity [box_at 0 0 10 10] [box_at 15 (10 + D) 25 (20 + D)] \<and>
         D \<le> y1 (box_at 15 (10 + D) 25 (20 + D)) - y2 (box_at 0 0 10 10) \<and>
         D \<le> center_distance (box_at 0 0 10 10) (box_at 15 (10 + D) 25 (20 + D)) \<and>
         check_nearness [box_at 0 0 10 10] [box_at 15 (10 + D) 25 (20 + D)]"
proof -
  have "D \<le> \<bar>10 + D\<bar>" using assms by simp
  also have "\<dots> = sqrt ((10 + D)\<^sup>2)" by simp
  also have "\<dots> \<le> sqrt (15\<^sup>2 + (10 + D)\<^sup>2)"
    by (rule real_sqrt_le_mono) simp
  finally have "D \<le> sqrt (15\<^sup>2 + (10 + D)\<^sup>2)" .
  moreover have "((15 + 25) / 2 - (0 + 10) / 2 :: real) = 15" by simp
  ultimately have "D \<le> center_distance (box_at 0 0 10 10) (box_at 15 (10 + D) 25 (20 + D))"
    by (simp add: center_distance_def box_at_def Let_def add_divide_distrib)
  then show ?thesis
    by (simp add: box_at_def boxes_intersect_def near_without_overlap_def)
qed

text \<open>
  C10: \<^verbatim>\<open>check_nearness\<close> tests each axis gap on its own. For every bound \<open>D\<close> there
  are a target box and an object box that do not overlap, with a horizontal gap of at most
  10 pixels, a vertical gap and a centre distance of at least \<open>D\<close>, on which it returns
  true. On every pair of boxes that overlap in both axes (the test of
  \<^verbatim>\<open>check_proximity\<close>) it returns false, and so it does on lists all of whose pairs
  overlap.
\<close>

theorem check_nearness_per_axis:
  "(\<exists>target_det obj_det.
      \<not> check_proximity [target_det] [obj_det] \<and>
      0 < x1 obj_det - x2 target_det \<and> x1 obj_det - x2 target_det \<le> 10 \<and>
      D \<le> y1 obj_det - y2 target_det \<and>
      D \<le> center_distance target_det obj_det \<and>
      check_nearness [target_det] [obj_det]) \<and>
   (check_proximity [t] [b] \<longrightarrow> \<not> check_nearness [t] [b]) \<and>
   ((\<forall>t\<in>set ts. \<forall>b\<in>set bs. boxes_intersect t b) \<longrightarrow> \<not> check_nearness ts bs)"
proof (intro conjI)
  let ?t = "box_at 0 0 10 10"
  let ?b = "box_at 15 (10 + max D 0) 25 (20 + max D 0)"
  have far: "\<not> check_proximity [?t] [?b] \<and> max D 0 \<le> y1 ?b - y2 ?t \<and>
      max D 0 \<le> center_distance ?t ?b \<and> check_nearness [?t] [?b]"
    by (rule far_but_near) simp
  have "0 < x1 ?b - x2 ?t \<and> x1 ?b - x2 ?t \<le> 10" by (simp add: box_at_def)
  moreover have "D \<le> y1 ?b - y2 ?t" using far by linarith
  moreover have "D \<le> center_distance ?t ?b" using far by linarith
  ultimately have "\<not> check_proximity [?t] [?b] \<and>
      0 < x1 ?b - x2 ?t \<and> x1 ?b - x2 ?t \<le> 10 \<and>
      D \<le> y1 ?b - y2 ?t \<and> D \<le> center_distance ?t ?b \<and> check_nearness [?t] [?b]"
    using far by blast
  then show "\<exists>target_det obj_det.
      \<not> check_proximity [target_det] [obj_det] \<and>
      0 < x1 obj_det - x2 target_det \<and> x1 obj_det - x2 target_det \<le> 10 \<and>
      D \<le> y1 obj_det - y2 target_det \<and>
      D \<le> center_distance target_det obj_det \<and>
      check_nearness [target_det] [obj_det]"
    by blast
  show "check_proximity [t] [b] \<longrightarrow> \<not> check_nearness [t] [b]"
    by (auto dest: intersect_not_near)
  show "(\<forall>t\<in>set ts. \<forall>b\<in>set bs. boxes_intersect t b) \<longrightarrow> \<not> check_nearness ts bs"
    by (auto simp: check_nearness_iff dest: intersect_not_near)
qed

theorem check_nearness_per_axis_witness:
  "check_proximity [box_at 0 0 10 10] [box_at 5 5 15 15] \<and>
   boxes_intersect (box_at 0 0 10 10) (box_at 5 5 15 15) \<and>
   \<not> check_nearness [box_at 0 0 10 10] [box_at 5 5 15 15]"
  using check_nearness_per_axis [of 0 "box_at 0 0 10 10" "box_at 5 5 15 15"
      "[box_at 0 0 10 10]" "[box_at 5 5 15 15]"]
  by (simp add: box_at_def boxes_intersect_def)

section \<open>Consolidation: the loops return\<close>

lemma iou_Inr: "iou acc cand = Inr (iou_value acc cand)"
  by (simp add: iou_def iou_value_def py_truediv_def)

lemma inner_loop_total:
  assumes "set js \<subseteq> {..<length detections}" and "length used = length detections"
  shows "\<exists>acc' used'. inner_loop detections thr js (acc, used) = Inr (acc', used') \<and>
           length used' = length used"
  using assms
proof (induction js arbitrary: acc used)
  case Nil
  then show ?case by simp
next
  case (Cons j js)
  then have j: "j < length used" "j < length detections" by auto
  from Cons.prems have sub: "set js \<subseteq> {..<length detections}" by simp
  show ?case
  proof (cases "\<not> used ! j \<and> thr \<le> iou_value acc (detections ! j)")
    case True
    have "length (used[j := True]) = length detections" using Cons.prems by simp
    from Cons.IH [OF sub this, of "merge_into acc (detections ! j)"] True j
    show ?thesis by (auto simp: iou_Inr)
  next
    case False
    from Cons.IH [OF sub Cons.prems(2), of acc] False j
    show ?thesis by (auto simp: iou_Inr)
  qed
qed

lemma outer_loop_total:
  assumes "set is \<subseteq> {..<length detections}" and "length used = length detections"
  shows "\<exists>used' consolidated'.
           outer_loop detections thr is (used, consolidated) = Inr (used', consolidated') \<and>
           length used' = length used \<and>
           length consolidated' \<le> length consolidated + length is"
  using assms
proof (induction "is" arbitrary: used consolidated)
  case Nil
  then show ?case by simp
next
  case (Cons i "is")
  then have i: "i < length used" "i < length detections" by auto
  from Cons.prems have sub: "set is \<subseteq> {..<length detections}" by simp
  show ?case
  proof (cases "used ! i")
    case True
    from Cons.IH [OF sub Cons.prems(2), of consolidated] True i
    show ?thesis by auto
  next
    case False
    have "set [Suc i..<length detections] \<subseteq> {..<length detections}" by auto
    moreover have len: "length (used[i := True]) = length detections" using Cons.prems by simp
    ultimately obtain acc' used' where
      inner: "inner_loop detections thr [Suc i..<length detections]
                (seed_of (detections ! i), used[i := True]) = Inr (acc', used')"
      and len': "length used' = length (used[i := True])"
      using inner_loop_total by blast
    from len len' have "length used' = length detections" by simp
    from Cons.IH [OF sub this, of "consolidated @ [emit acc' (detections ! i)]"] False i inner len'
    show ?thesis by auto
  qed
qed


lemma emit_seed: "emit (seed_of d) d = d"
  by (simp add: emit_def seed_of_def)

lemma consolidate_total:
  "\<exists>out. snd (consolidate_detections detections thr) = Inr out \<and>
     length out \<le> length detections"
proof (cases "detections = []")
  case True
  then show ?thesis by (simp add: consolidate_detections_def)
next
  case False
  let ?s = "sort_by_confidence detections"
  have "set [0..<length ?s] \<subseteq> {..<length ?s}" by auto
  moreover have "length (replicate (length ?s) False) = length ?s" by simp
  ultimately obtain used' out where
    "outer_loop ?s thr [0..<length ?s] (replicate (length ?s) False, []) = Inr (used', out)"
    "length out \<le> length ([]::detection list) + length [0..<length ?s]"
    using outer_loop_total by blast
  with False show ?thesis
    by (simp add: consolidate_detections_def Let_def sort_by_confidence_def)
qed

lemma sort_pair:
  "sort_by_confidence [a, b] = (if conf b \<le> conf a then [a, b] else [b, a])"
  by (simp add: sort_by_confidence_def)

lemma consolidate_sorted_pair:
  assumes "conf q \<le> conf p"
  shows "consolidate_detections [p, q] thr =
           ([p, q], Inr (if thr \<le> iou_value (seed_of p) q
                         then [emit (merge_into (seed_of p) q) p] else [p, q]))"
  using assms
  by (simp add: consolidate_detections_def sort_pair Let_def iou_Inr emit_seed)

text \<open>
  C8: the division of line 277 is never by zero. When the union area is not strictly
  positive the IoU is 0; in every case the IoU is a number, the comparison with the
  threshold goes on, and \<^verbatim>\<open>consolidate_detections\<close> returns a list on every input
  (no \<^verbatim>\<open>ZeroDivisionError\<close>, no \<^verbatim>\<open>IndexError\<close>), boxes of area zero included.
\<close>

theorem iou_never_divides_by_zero:
  "(union_area acc cand \<le> 0 \<longrightarrow> iou acc cand = Inr 0) \<and>
   (\<exists>v. iou acc cand = Inr v) \<and>
   (\<exists>out. snd (consolidate_detections detections iou_threshold) = Inr out)"
  using consolidate_total [of detections iou_threshold]
  by (auto simp: iou_def py_truediv_def)

theorem iou_never_divides_by_zero_witness:
  "union_area (seed_of (box_at 0 0 0 0)) (box_at 0 0 0 0) \<le> 0 \<and>
   iou (seed_of (box_at 0 0 0 0)) (box_at 0 0 0 0) = Inr 0 \<and>
   snd (consolidate_detections [box_at 0 0 0 0, box_at 0 0 0 0] (1/2)) =
     Inr [box_at 0 0 0 0, box_at 0 0 0 0]"
  using iou_never_divides_by_zero [of "seed_of (box_at 0 0 0 0)" "box_at 0 0 0 0"
      "[box_at 0 0 0 0, box_at 0 0 0 0]" "1/2"]
    consolidate_sorted_pair [where p = "box_at 0 0 0 0" and q = "box_at 0 0 0 0" and thr = "1/2"]
  by (simp add: union_area_def inter_area_def seed_of_def box_at_def iou_value_def)


section \<open>Consolidation: the caller's list\<close>

lemma fst_consolidate: "fst (consolidate_detections detections thr) = sort_by_confidence detections"
  by (simp add: consolidate_detections_def Let_def sort_by_confidence_def)

text \<open>
  C9: \<^verbatim>\<open>consolidate_detections\<close> changes its argument. After the call the caller's list
  is the input sorted by descending confidence (the same detections, reordered), and on
  the input of two detections with confidences 0.5 and 0.9 the list after the call is not
  the list before it.
\<close>

theorem consolidate_sorts_in_place:
  "fst (consolidate_detections detections iou_threshold) = sort_key (\<lambda>x. - conf x) detections \<and>
   sorted_wrt (\<lambda>a b. conf b \<le> conf a) (fst (consolidate_detections detections iou_threshold)) \<and>
   mset (fst (consolidate_detections detections iou_threshold)) = mset detections \<and>
   fst (consolidate_detections [(box_at 0 0 1 1)\<lparr>conf := 1/2\<rparr>, box_at 5 5 6 6] (1/2)) =
     [box_at 5 5 6 6, (box_at 0 0 1 1)\<lparr>conf := 1/2\<rparr>] \<and>
   [box_at 5 5 6 6, (box_at 0 0 1 1)\<lparr>conf := 1/2\<rparr>] \<noteq>
     [(box_at 0 0 1 1)\<lparr>conf := 1/2\<rparr>, box_at 5 5 6 6]"
proof (intro conjI)
  show "fst (consolidate_detections detections iou_threshold) = sort_key (\<lambda>x. - conf x) detections"
    by (simp add: fst_consolidate sort_by_confidence_def)
  have "sorted (map (\<lambda>x. - conf x) (sort_key (\<lambda>x. - conf x) detections))"
    by (rule sorted_sort_key)
  then show "sorted_wrt (\<lambda>a b. conf b \<le> conf a) (fst (consolidate_detections detections iou_threshold))"
    by (simp add: fst_consolidate sort_by_confidence_def sorted_map)
  show "mset (fst (consolidate_detections detections iou_threshold)) = mset detections"
    by (simp add: fst_consolidate sort_by_confidence_def)
  show "fst (consolidate_detections [(box_at 0 0 1 1)\<lparr>conf := 1/2\<rparr>, box_at 5 5 6 6] (1/2)) =
     [box_at 5 5 6 6, (box_at 0 0 1 1)\<lparr>conf := 1/2\<rparr>]"
    by (simp add: fst_consolidate sort_pair box_at_def)
  show "[box_at 5 5 6 6, (box_at 0 0 1 1)\<lparr>conf := 1/2\<rparr>] \<noteq>
     [(box_at 0 0 1 1)\<lparr>conf := 1/2\<rparr>, box_at 5 5 6 6]"
    by (simp add: box_at_def)
qed

section \<open>Consolidation of two detections\<close>

lemma inter_area_commute: "inter_area (seed_of a) b = inter_area (seed_of b) a"
  by (simp add: inter_area_def seed_of_def max.commute min.commute)

lemma union_area_commute: "union_area (seed_of a) b = union_area (seed_of b) a"
  using inter_area_commute [of a b] by (simp add: union_area_def seed_of_def)

lemma iou_value_commute: "iou_value (seed_of a) b = iou_value (seed_of b) a"
  by (simp add: iou_value_def inter_area_commute [of a b] union_area_commute [of a b])

lemma iou_value_disjoint: "inter_area acc cand = 0 \<Longrightarrow> iou_value acc cand = 0"
  by (simp add: iou_value_def)

text \<open>
  C3, as the claim states it, fails at the threshold 0: two boxes that share no area have
  IoU 0, the test \<^verbatim>\<open>iou >= iou_threshold\<close> holds, and they are merged into their
  bounding union.
\<close>

theorem disjoint_pair_merged_at_zero:
  "inter_area (seed_of (box_at 0 0 1 1)) (box_at 2 2 3 3) = 0 \<and>
   snd (consolidate_detections [box_at 0 0 1 1, box_at 2 2 3 3] 0) = Inr [box_at 0 0 3 3]"
  using consolidate_sorted_pair [where p = "box_at 0 0 1 1" and q = "box_at 2 2 3 3" and thr = 0]
  by (simp add: inter_area_def union_area_def iou_value_def seed_of_def box_at_def
      emit_def merge_into_def)

text \<open>
  C3, amended: for two detections whose intersection area is 0 and every threshold above
  0, \<^verbatim>\<open>consolidate_detections\<close> returns both detections unmodified, in the order of
  descending confidence.
\<close>

theorem disjoint_pair_unmodified:
  assumes "inter_area (seed_of a) b = 0" and "0 < iou_threshold"
  shows "snd (consolidate_detections [a, b] iou_threshold) =
           Inr (if conf b \<le> conf a then [a, b] else [b, a])"
proof (cases "conf b \<le> conf a")
  case True
  from assms have "\<not> iou_threshold \<le> iou_value (seed_of a) b"
    by (simp add: iou_value_disjoint)
  with True show ?thesis by (simp add: consolidate_sorted_pair)
next
  case False
  then have le: "conf a \<le> conf b" by simp
  from assms have "\<not> iou_threshold \<le> iou_value (seed_of b) a"
    by (simp add: iou_value_disjoint inter_area_commute [of b a])
  moreover have "consolidate_detections [a, b] iou_threshold =
      consolidate_detections [b, a] iou_threshold"
    using False by (simp add: consolidate_detections_def sort_pair Let_def)
  ultimately show ?thesis using False le by (simp add: consolidate_sorted_pair)
qed

theorem disjoint_pair_unmodified_witness:
  "inter_area (seed_of (box_at 0 0 1 1)) (box_at 2 2 3 3) = 0 \<and> (0::real) < 1/2 \<and>
   snd (consolidate_detections [box_at 0 0 1 1, box_at 2 2 3 3] (1/2)) =
     Inr [box_at 0 0 1 1, box_at 2 2 3 3]"
  using disjoint_pair_unmodified [of "box_at 0 0 1 1" "box_at 2 2 3 3" "1/2"]
  by (simp add: inter_area_def seed_of_def box_at_def)

lemma sorted_pair_cases:
  assumes "sort_by_confidence [a, b] = [p, q]"
  shows "conf q \<le> conf p \<and> consolidate_detections [a, b] thr = consolidate_detections [p, q] thr"
proof (cases "conf b \<le> conf a")
  case True
  with assms show ?thesis by (simp add: sort_pair)
next
  case False
  with assms have "p = b" "q = a" by (simp_all add: sort_pair)
  with False show ?thesis by (simp add: consolidate_detections_def sort_pair Let_def)
qed

text \<open>
  C5: the merge test is inclusive at the threshold. For two detections, \<open>p\<close> before
  \<open>q\<close> once sorted, whose IoU is \<open>v\<close>: when \<open>v\<close> is exactly the threshold the result
  is the single merged detection (bounding union, higher confidence, the class of
  \<open>p\<close>); when \<open>v\<close> is strictly below the threshold the result is both detections,
  unmerged.
\<close>

theorem merge_test_inclusive:
  assumes "sort_by_confidence [a, b] = [p, q]" and "iou (seed_of p) q = Inr v"
  shows "(v = iou_threshold \<longrightarrow>
            snd (consolidate_detections [a, b] iou_threshold) =
              Inr [\<lparr>x1 = min (x1 p) (x1 q), y1 = min (y1 p) (y1 q),
                    x2 = max (x2 p) (x2 q), y2 = max (y2 p) (y2 q),
                    conf = max (conf p) (conf q),
                    cls_id = cls_id p, class_name = class_name p\<rparr>]) \<and>
         (v < iou_threshold \<longrightarrow>
            snd (consolidate_detections [a, b] iou_threshold) = Inr [p, q])"
proof -
  from assms(2) have v: "v = iou_value (seed_of p) q" by (simp add: iou_Inr)
  from sorted_pair_cases [OF assms(1), of iou_threshold]
  have "snd (consolidate_detections [a, b] iou_threshold) =
          Inr (if iou_threshold \<le> v then [emit (merge_into (seed_of p) q) p] else [p, q])"
    by (simp add: consolidate_sorted_pair v)
  then show ?thesis by (simp add: emit_def merge_into_def seed_of_def)
qed

theorem merge_test_inclusive_witness:
  "sort_by_confidence [box_at 0 0 10 10, box_at 0 0 20 10] =
     [box_at 0 0 10 10, box_at 0 0 20 10] \<and>
   iou (seed_of (box_at 0 0 10 10)) (box_at 0 0 20 10) = Inr (1/2) \<and>
   snd (consolidate_detections [box_at 0 0 10 10, box_at 0 0 20 10] (1/2)) =
     Inr [box_at 0 0 20 10] \<and>
   snd (consolidate_detections [box_at 0 0 10 10, box_at 0 0 20 10] (3/5)) =
     Inr [box_at 0 0 10 10, box_at 0 0 20 10]"
proof -
  have s: "sort_by_confidence [box_at 0 0 10 10, box_at 0 0 20 10] =
     [box_at 0 0 10 10, box_at 0 0 20 10]"
    by (simp add: sort_pair box_at_def)
  have i: "iou (seed_of (box_at 0 0 10 10)) (box_at 0 0 20 10) = Inr (1/2)"
    by (simp add: iou_def py_truediv_def union_area_def inter_area_def seed_of_def box_at_def)
  from merge_test_inclusive [OF s i, of "1/2"] merge_test_inclusive [OF s i, of "3/5"] s i
  show ?thesis by (simp add: box_at_def)
qed

section \<open>Consolidation: the inner loop\<close>

lemma inside_refl: "inside acc acc"
  by (simp add: inside_def)

lemma inside_trans: "inside a b \<Longrightarrow> inside b c \<Longrightarrow> inside a c"
  by (auto simp: inside_def)

lemma inside_merge: "inside acc (merge_into acc cand)"
  by (simp add: inside_def merge_into_def)

lemma inside_merge_cand: "inside (seed_of cand) (merge_into acc cand)"
  by (simp add: inside_def merge_into_def seed_of_def)

text \<open>One step of the inner loop, as a case distinction.\<close>

lemma inner_loop_Cons_cases:
  assumes "inner_loop detections thr (j # js) (acc, used) = Inr (acc', used')"
  obtains
    (merge) "j < length used" "j < length detections" "\<not> used ! j"
      "thr \<le> iou_value acc (detections ! j)"
      "inner_loop detections thr js (merge_into acc (detections ! j), used[j := True]) =
         Inr (acc', used')"
  | (skip) "j < length used" "j < length detections"
      "used ! j \<or> iou_value acc (detections ! j) < thr"
      "inner_loop detections thr js (acc, used) = Inr (acc', used')"
  using assms by (auto simp: iou_Inr split: if_splits)

lemma inner_loop_length:
  "inner_loop detections thr js (acc, used) = Inr (acc', used') \<Longrightarrow> length used' = length used"
proof (induction js arbitrary: acc used)
  case Nil
  then show ?case by simp
next
  case (Cons j js)
  from Cons.prems show ?case
    by (cases rule: inner_loop_Cons_cases) (auto dest: Cons.IH)
qed

lemma inner_loop_frame:
  "inner_loop detections thr js (acc, used) = Inr (acc', used') \<Longrightarrow> k \<notin> set js \<Longrightarrow>
     used' ! k = used ! k"
proof (induction js arbitrary: acc used)
  case Nil
  then show ?case by simp
next
  case (Cons j js)
  from Cons.prems(1) show ?case
  proof (cases rule: inner_loop_Cons_cases)
    case merge
    from Cons.IH [OF merge(5)] Cons.prems(2) show ?thesis by simp
  next
    case skip
    from Cons.IH [OF skip(4)] Cons.prems(2) show ?thesis by simp
  qed
qed

lemma inner_loop_inside:
  "inner_loop detections thr js (acc, used) = Inr (acc', used') \<Longrightarrow> inside acc acc'"
proof (induction js arbitrary: acc used)
  case Nil
  then show ?case by (simp add: inside_refl)
next
  case (Cons j js)
  from Cons.prems show ?case
  proof (cases rule: inner_loop_Cons_cases)
    case merge
    from Cons.IH [OF merge(5)] inside_merge [of acc "detections ! j"]
    show ?thesis by (rule inside_trans [rotated])
  next
    case skip
    then show ?thesis by (auto dest: Cons.IH)
  qed
qed

lemma inner_loop_claims:
  "inner_loop detections thr js (acc, used) = Inr (acc', used') \<Longrightarrow>
     used' ! k \<Longrightarrow> \<not> used ! k \<Longrightarrow> inside (seed_of (detections ! k)) acc'"
proof (induction js arbitrary: acc used)
  case Nil
  then show ?case by simp
next
  case (Cons j js)
  from Cons.prems(1) show ?case
  proof (cases rule: inner_loop_Cons_cases)
    case merge
    show ?thesis
    proof (cases "k = j")
      case True
      from inner_loop_inside [OF merge(5)] inside_merge_cand [of "detections ! j" acc]
      show ?thesis unfolding True by (rule inside_trans [rotated])
    next
      case False
      with Cons.prems(3) have "\<not> used[j := True] ! k" by simp
      from Cons.IH [OF merge(5) Cons.prems(2) this] show ?thesis .
    qed
  next
    case skip
    from Cons.IH [OF skip(4) Cons.prems(2) Cons.prems(3)] show ?thesis .
  qed
qed


lemma inner_loop_fold:
  assumes "inner_loop detections thr js (acc, used) = Inr (acc', used')" and "distinct js"
  shows "acc' = foldl merge_into acc
                  (map (\<lambda>j. detections ! j) (filter (\<lambda>j. used' ! j \<and> \<not> used ! j) js))"
  using assms
proof (induction js arbitrary: acc used)
  case Nil
  then show ?case by simp
next
  case (Cons j js)
  from Cons.prems(2) have d: "distinct js" and nj: "j \<notin> set js" by simp_all
  from Cons.prems(1) show ?case
  proof (cases rule: inner_loop_Cons_cases)
    case merge
    from inner_loop_frame [OF merge(5) nj] merge(1) have uj: "used' ! j" by simp
    have "filter (\<lambda>k. used' ! k \<and> \<not> used[j := True] ! k) js =
          filter (\<lambda>k. used' ! k \<and> \<not> used ! k) js"
    proof (rule filter_cong [OF refl])
      fix k assume "k \<in> set js"
      with nj have "k \<noteq> j" by auto
      then show "(used' ! k \<and> \<not> used[j := True] ! k) = (used' ! k \<and> \<not> used ! k)" by simp
    qed
    with Cons.IH [OF merge(5) d] uj merge(3) show ?thesis by simp
  next
    case skip
    from inner_loop_frame [OF skip(4) nj] have "used' ! j = used ! j" .
    then have "filter (\<lambda>k. used' ! k \<and> \<not> used ! k) (j # js) =
               filter (\<lambda>k. used' ! k \<and> \<not> used ! k) js"
      by simp
    with Cons.IH [OF skip(4) d] show ?thesis by (simp only:)
  qed
qed

lemma inner_loop_mono:
  "inner_loop detections thr js (acc, used) = Inr (acc', used') \<Longrightarrow> k < length used \<Longrightarrow>
     used ! k \<Longrightarrow> used' ! k"
proof (induction js arbitrary: acc used)
  case Nil
  then show ?case by simp
next
  case (Cons j js)
  from Cons.prems(1) show ?case
  proof (cases rule: inner_loop_Cons_cases)
    case merge
    from Cons.prems(2,3) merge(1) have "k < length (used[j := True])" "used[j := True] ! k"
      by (simp_all add: nth_list_update)
    from Cons.IH [OF merge(5) this] show ?thesis .
  next
    case skip
    from Cons.IH [OF skip(4) Cons.prems(2,3)] show ?thesis .
  qed
qed

lemma filter_split_mset:
  "\<forall>x\<in>set xs. P x \<longrightarrow> Q x \<Longrightarrow>
     mset (filter Q xs) = mset (filter P xs) + mset (filter (\<lambda>x. Q x \<and> \<not> P x) xs)"
  by (induction xs) auto

section \<open>Consolidation: contributors of the merged detections\<close>

lemma outer_loop_groups_erase:
  "outer_loop detections thr is (used, map fst groups) =
     map_sum id (\<lambda>(u, g). (u, map fst g))
       (outer_loop_groups detections thr is (used, groups))"
proof (induction "is" arbitrary: used groups)
  case Nil
  then show ?case by simp
next
  case (Cons i "is")
  show ?case
  proof (cases "inner_loop detections thr [Suc i..<length detections]
                  (seed_of (detections ! i), used[i := True])")
    case (Inl e)
    then show ?thesis using Cons.IH [of used groups] by simp
  next
    case (Inr r)
    obtain acc' used' where r: "r = (acc', used')" by (cases r)
    from Cons.IH [of used' "groups @ [(emit acc' (detections ! i),
        claimed detections i (used[i := True]) used')]"] Cons.IH [of used groups] Inr r
    show ?thesis by simp
  qed
qed

lemma covers_emit: "inside (seed_of m) acc \<Longrightarrow> covers (emit acc d) m"
  by (simp add: inside_def covers_def emit_def seed_of_def)

lemma claimed_covered:
  assumes inner: "inner_loop detections thr [Suc i..<length detections]
                    (seed_of (detections ! i), used) = Inr (acc', used')"
    and i: "i < length detections"
    and m: "m \<in> set (claimed detections i used used')"
  shows "m \<in> set detections \<and> covers (emit acc' (detections ! i)) m"
proof -
  from m consider "m = detections ! i"
    | j where "m = detections ! j" "j < length detections" "used' ! j" "\<not> used ! j"
    by (auto simp: claimed_def)
  then show ?thesis
  proof cases
    case 1
    with i inner_loop_inside [OF inner] show ?thesis by (simp add: covers_emit)
  next
    case 2
    with inner_loop_claims [OF inner 2(3) 2(4)] show ?thesis by (simp add: covers_emit)
  qed
qed

lemma claimed_fold:
  assumes "inner_loop detections thr [Suc i..<length detections]
             (seed_of (detections ! i), used) = Inr (acc', used')"
  shows "emit acc' (detections ! i) =
           emit (foldl merge_into (seed_of (hd (claimed detections i used used')))
                   (tl (claimed detections i used used')))
             (hd (claimed detections i used used'))"
  using inner_loop_fold [OF assms] by (simp add: claimed_def)

lemma covers_area:
  assumes "covers out m" and "x1 m < x2 m" and "y1 m < y2 m"
  shows "box_area m \<le> box_area out"
proof -
  from assms have "x2 m - x1 m \<le> x2 out - x1 out" "y2 m - y1 m \<le> y2 out - y1 out"
    "0 \<le> x2 out - x1 out" "0 \<le> y2 m - y1 m"
    by (auto simp: covers_def)
  then show ?thesis unfolding box_area_def by (rule mult_mono)
qed


lemma consolidate_groups_erase:
  "snd (consolidate_detections detections thr) =
     map_sum id (map fst) (consolidate_groups detections thr)"
proof (cases "detections = []")
  case True
  then show ?thesis by (simp add: consolidate_detections_def consolidate_groups_def)
next
  case False
  let ?s = "sort_by_confidence detections"
  from outer_loop_groups_erase [of ?s thr "[0..<length ?s]" "replicate (length ?s) False" "[]"]
  show ?thesis using False
    by (simp add: consolidate_detections_def consolidate_groups_def Let_def
        split: sum.splits prod.splits)
qed

lemma marked_split:
  assumes "\<forall>k<length detections. used ! k \<longrightarrow> used' ! k"
  shows "marked detections used' =
           marked detections used +
           mset (map (\<lambda>k. detections ! k)
                  (filter (\<lambda>k. used' ! k \<and> \<not> used ! k) [0..<length detections]))"
proof -
  have "\<forall>k\<in>set [0..<length detections]. used ! k \<longrightarrow> used' ! k" using assms by simp
  from filter_split_mset [of _ "\<lambda>k. used ! k" "\<lambda>k. used' ! k", OF this]
  have F: "mset (filter (\<lambda>k. used' ! k) [0..<length detections]) =
      mset (filter (\<lambda>k. used ! k) [0..<length detections]) +
      mset (filter (\<lambda>k. used' ! k \<and> \<not> used ! k) [0..<length detections])" .
  show ?thesis by (simp only: marked_def mset_map F image_mset_union)
qed

lemma filter_eq_upt: "i < n \<Longrightarrow> filter (\<lambda>k. k = i) [0..<n] = [i]"
  by (induction n) (auto simp: less_Suc_eq)

lemma marked_seed:
  assumes "i < length detections" and "length used = length detections" and "\<not> used ! i"
  shows "marked detections (used[i := True]) = marked detections used + {#detections ! i#}"
proof -
  have "filter (\<lambda>k. used[i := True] ! k \<and> \<not> used ! k) [0..<length detections] =
        filter (\<lambda>k. k = i) [0..<length detections]"
    using assms by (intro filter_cong) (auto simp: nth_list_update)
  also have "\<dots> = [i]" using assms(1) by (rule filter_eq_upt)
  finally have F: "filter (\<lambda>k. used[i := True] ! k \<and> \<not> used ! k) [0..<length detections]
                  = [i]" .
  have "\<forall>k<length detections. used ! k \<longrightarrow> used[i := True] ! k"
    using assms by (simp add: nth_list_update)
  from marked_split [OF this] show ?thesis by (simp only: F) simp
qed

lemma marked_inner:
  assumes inner: "inner_loop detections thr [Suc i..<length detections] (acc, used) =
                    Inr (acc', used')"
    and len: "length used = length detections" and i: "i < length detections"
  shows "marked detections used' =
           marked detections used +
           mset (map (\<lambda>k. detections ! k)
                  (filter (\<lambda>k. used' ! k \<and> \<not> used ! k) [Suc i..<length detections]))"
proof -
  have mono: "\<forall>k<length detections. used ! k \<longrightarrow> used' ! k"
    using inner_loop_mono [OF inner] len by simp
  have "[0..<length detections] = [0..<Suc i] @ [Suc i..<length detections]"
  proof -
    from i obtain d where d: "length detections = Suc i + d"
      by (metis Suc_leI le_Suc_ex)
    show ?thesis unfolding d by (rule upt_add_eq_append) simp
  qed
  moreover have "filter (\<lambda>k. used' ! k \<and> \<not> used ! k) [0..<Suc i] = []"
  proof -
    have "\<forall>k\<in>set [0..<Suc i]. \<not> (used' ! k \<and> \<not> used ! k)"
    proof
      fix k assume "k \<in> set [0..<Suc i]"
      then have "k \<notin> set [Suc i..<length detections]" by auto
      from inner_loop_frame [OF inner this] show "\<not> (used' ! k \<and> \<not> used ! k)" by simp
    qed
    then show ?thesis by (simp add: filter_empty_conv)
  qed
  ultimately have "filter (\<lambda>k. used' ! k \<and> \<not> used ! k) [0..<length detections] =
      filter (\<lambda>k. used' ! k \<and> \<not> used ! k) [Suc i..<length detections]"
    by (metis append_Nil filter_append)
  with marked_split [OF mono] show ?thesis by simp
qed

lemma outer_loop_groups_Cons_cases:
  assumes "outer_loop_groups detections thr (i # is) (used, groups) = Inr (used', groups')"
  obtains
    (seed) acc1 used1 where "i < length used" "i < length detections" "\<not> used ! i"
      "inner_loop detections thr [Suc i..<length detections]
         (seed_of (detections ! i), used[i := True]) = Inr (acc1, used1)"
      "outer_loop_groups detections thr is
         (used1, groups @ [(emit acc1 (detections ! i),
                            claimed detections i (used[i := True]) used1)]) =
         Inr (used', groups')"
  | (skip) "i < length used" "i < length detections" "used ! i"
      "outer_loop_groups detections thr is (used, groups) = Inr (used', groups')"
  using assms by (auto split: if_splits sum.splits)

lemma outer_loop_groups_all:
  assumes "outer_loop_groups detections thr is (used, groups) = Inr (used', groups')"
    and "\<forall>g\<in>set groups. P g"
    and "\<And>i used acc1 used1. i < length detections \<Longrightarrow>
           inner_loop detections thr [Suc i..<length detections]
             (seed_of (detections ! i), used) = Inr (acc1, used1) \<Longrightarrow>
           P (emit acc1 (detections ! i), claimed detections i used used1)"
  shows "\<forall>g\<in>set groups'. P g"
  using assms(1,2)
proof (induction "is" arbitrary: used groups)
  case Nil
  then show ?case by simp
next
  case (Cons i "is")
  from Cons.prems(1) show ?case
  proof (cases rule: outer_loop_groups_Cons_cases)
    case (seed acc1 used1)
    from assms(3) [OF seed(2) seed(4)] Cons.prems(2)
    have "\<forall>g\<in>set (groups @ [(emit acc1 (detections ! i),
              claimed detections i (used[i := True]) used1)]). P g"
      by simp
    from Cons.IH [OF seed(5) this] show ?thesis .
  next
    case skip
    from Cons.IH [OF skip(4) Cons.prems(2)] show ?thesis .
  qed
qed

lemma outer_loop_groups_marks:
  assumes "outer_loop_groups detections thr is (used, groups) = Inr (used', groups')"
    and "length used = length detections"
  shows "length used' = length detections \<and>
         (\<forall>k<length detections. used ! k \<longrightarrow> used' ! k) \<and>
         (\<forall>k\<in>set is. used' ! k)"
  using assms
proof (induction "is" arbitrary: used groups)
  case Nil
  then show ?case by simp
next
  case (Cons i "is")
  from Cons.prems(1) show ?case
  proof (cases rule: outer_loop_groups_Cons_cases)
    case (seed acc1 used1)
    have len1: "length (used[i := True]) = length detections" using Cons.prems(2) by simp
    from inner_loop_length [OF seed(4)] len1 have len: "length used1 = length detections"
      by simp
    from Cons.IH [OF seed(5) len]
    have IH: "length used' = length detections"
      "\<forall>k<length detections. used1 ! k \<longrightarrow> used' ! k" "\<forall>k\<in>set is. used' ! k"
      by simp_all
    have step: "\<forall>k<length detections. used[i := True] ! k \<longrightarrow> used1 ! k"
      using inner_loop_mono [OF seed(4)] len1 by simp
    have "used' ! i" using step IH(2) seed(1,2) by simp
    moreover have "\<forall>k<length detections. used ! k \<longrightarrow> used' ! k"
      using step IH(2) seed(1) by (auto simp: nth_list_update)
    ultimately show ?thesis using IH by simp
  next
    case skip
    from Cons.IH [OF skip(4) Cons.prems(2)] skip(2,3) show ?thesis by auto
  qed
qed

lemma outer_loop_groups_mset:
  assumes "outer_loop_groups detections thr is (used, groups) = Inr (used', groups')"
    and "length used = length detections"
  shows "mset (concat (map snd groups')) + marked detections used =
         mset (concat (map snd groups)) + marked detections used'"
  using assms
proof (induction "is" arbitrary: used groups)
  case Nil
  then show ?case by simp
next
  case (Cons i "is")
  from Cons.prems(1) show ?case
  proof (cases rule: outer_loop_groups_Cons_cases)
    case (seed acc1 used1)
    have len1: "length (used[i := True]) = length detections" using Cons.prems(2) by simp
    from inner_loop_length [OF seed(4)] len1 have len: "length used1 = length detections"
      by simp
    have "marked detections used1 =
            marked detections used + mset (claimed detections i (used[i := True]) used1)"
      using marked_inner [OF seed(4) len1 seed(2)] marked_seed [OF seed(2) Cons.prems(2) seed(3)]
      by (simp add: claimed_def)
    with Cons.IH [OF seed(5) len] show ?thesis by simp
  next
    case skip
    from Cons.IH [OF skip(4) Cons.prems(2)] show ?thesis .
  qed
qed

lemma marked_none: "marked detections (replicate (length detections) False) = {#}"
  by (simp add: marked_def)

lemma marked_all:
  assumes "\<forall>k<length detections. used ! k"
  shows "marked detections used = mset detections"
proof -
  have "filter (\<lambda>k. used ! k) [0..<length detections] = [0..<length detections]"
    using assms by (simp add: filter_id_conv)
  then show ?thesis by (simp only: marked_def map_nth)
qed

lemma consolidate_groups_partition:
  assumes "consolidate_groups detections thr = Inr groups"
  shows "mset (concat (map snd groups)) = mset detections"
proof (cases "detections = []")
  case True
  with assms show ?thesis by (simp add: consolidate_groups_def)
next
  case False
  let ?s = "sort_by_confidence detections"
  from False assms obtain used' where
    run: "outer_loop_groups ?s thr [0..<length ?s] (replicate (length ?s) False, []) =
            Inr (used', groups)"
    by (auto simp: consolidate_groups_def Let_def split: sum.splits)
  have len: "length (replicate (length ?s) False) = length ?s" by simp
  from outer_loop_groups_marks [OF run len] have "\<forall>k<length ?s. used' ! k" by simp
  then have "marked ?s used' = mset ?s" by (rule marked_all)
  with outer_loop_groups_mset [OF run len] have "mset (concat (map snd groups)) = mset ?s"
    by (simp add: marked_none)
  then show ?thesis by (simp add: sort_by_confidence_def)
qed

lemma new_group_ok:
  assumes i: "i < length detections"
    and inner: "inner_loop detections thr [Suc i..<length detections]
                  (seed_of (detections ! i), used) = Inr (acc1, used1)"
  shows "case (emit acc1 (detections ! i), claimed detections i used used1) of
           (out, members) \<Rightarrow>
             members \<noteq> [] \<and>
             out = emit (foldl merge_into (seed_of (hd members)) (tl members)) (hd members) \<and>
             (\<forall>m\<in>set members. m \<in> set detections \<and> covers out m)"
  using claimed_fold [OF inner] claimed_covered [OF inner i]
  by (auto simp: claimed_def)

lemma consolidate_groups_ok:
  assumes "consolidate_groups detections thr = Inr groups"
  shows "\<forall>g\<in>set groups. case g of
           (out, members) \<Rightarrow>
             members \<noteq> [] \<and>
             out = emit (foldl merge_into (seed_of (hd members)) (tl members)) (hd members) \<and>
             (\<forall>m\<in>set members. m \<in> set detections \<and> covers out m)"
proof (cases "detections = []")
  case True
  with assms show ?thesis by (simp add: consolidate_groups_def)
next
  case False
  let ?s = "sort_by_confidence detections"
  let ?P = "\<lambda>g. case g of
           (out, members) \<Rightarrow>
             members \<noteq> [] \<and>
             out = emit (foldl merge_into (seed_of (hd members)) (tl members)) (hd members) \<and>
             (\<forall>m\<in>set members. m \<in> set ?s \<and> covers out m)"
  from False assms obtain used' where
    run: "outer_loop_groups ?s thr [0..<length ?s] (replicate (length ?s) False, []) =
            Inr (used', groups)"
    by (auto simp: consolidate_groups_def Let_def split: sum.splits)
  have "\<forall>g\<in>set groups. ?P g"
  proof (rule outer_loop_groups_all [OF run])
    show "\<forall>g\<in>set []. ?P g" by simp
  next
    fix i used acc1 used1
    assume "i < length ?s"
      and "inner_loop ?s thr [Suc i..<length ?s] (seed_of (?s ! i), used) = Inr (acc1, used1)"
    then show "?P (emit acc1 (?s ! i), claimed ?s i used used1)" by (rule new_group_ok)
  qed
  then show ?thesis by (simp add: sort_by_confidence_def)
qed

text \<open>
  C7: for every list of well-formed detections (\<open>x1 < x2\<close>, \<open>y1 < y2\<close>) and every
  threshold, \<^verbatim>\<open>consolidate_detections\<close> returns a list no longer than its input. Every
  input detection is a contributor of exactly one output detection; every output detection
  is its seed with the box and confidence obtained by merging (line 283 to 285) its
  contributors in turn, so its box is their bounding union: it contains the box of each
  contributor and its area is at least the area of each contributor.
\<close>

theorem consolidate_size_and_area:
  assumes "\<forall>d\<in>set detections. x1 d < x2 d \<and> y1 d < y2 d"
  shows "\<exists>groups.
           consolidate_groups detections iou_threshold = Inr groups \<and>
           snd (consolidate_detections detections iou_threshold) = Inr (map fst groups) \<and>
           length (map fst groups) \<le> length detections \<and>
           mset (concat (map snd groups)) = mset detections \<and>
           (\<forall>(out, members)\<in>set groups.
              members \<noteq> [] \<and>
              out = emit (foldl merge_into (seed_of (hd members)) (tl members)) (hd members) \<and>
              (\<forall>m\<in>set members. covers out m \<and> box_area m \<le> box_area out))"
proof -
  obtain out where out: "snd (consolidate_detections detections iou_threshold) = Inr out"
    and len: "length out \<le> length detections"
    using consolidate_total by blast
  with consolidate_groups_erase [of detections iou_threshold]
  obtain groups where groups: "consolidate_groups detections iou_threshold = Inr groups"
    and fst: "out = map fst groups"
    by (cases "consolidate_groups detections iou_threshold") auto
  note ok = consolidate_groups_ok [OF groups]
  have "\<forall>(out, members)\<in>set groups.
          members \<noteq> [] \<and>
          out = emit (foldl merge_into (seed_of (hd members)) (tl members)) (hd members) \<and>
          (\<forall>m\<in>set members. covers out m \<and> box_area m \<le> box_area out)"
  proof (clarify, intro conjI ballI)
    fix out members
    assume g: "(out, members) \<in> set groups"
    with ok show "members \<noteq> []"
      and "out = emit (foldl merge_into (seed_of (hd members)) (tl members)) (hd members)"
      by auto
    fix m assume m: "m \<in> set members"
    with ok g have c: "m \<in> set detections" "covers out m" by auto
    then show "covers out m" by simp
    from c(1) assms have "x1 m < x2 m" "y1 m < y2 m" by auto
    with c(2) show "box_area m \<le> box_area out" by (rule covers_area)
  qed
  with groups out len fst consolidate_groups_partition [OF groups] show ?thesis by auto
qed

theorem consolidate_size_and_area_witness:
  "x1 (scored 0 0 10 10 (9/10)) < x2 (scored 0 0 10 10 (9/10)) \<and>
   y1 (scored 0 0 10 10 (9/10)) < y2 (scored 0 0 10 10 (9/10)) \<and>
   x1 (scored 8 0 20 10 (8/10)) < x2 (scored 8 0 20 10 (8/10)) \<and>
   y1 (scored 8 0 20 10 (8/10)) < y2 (scored 8 0 20 10 (8/10)) \<and>
   x1 (scored 0 0 20 10 (7/10)) < x2 (scored 0 0 20 10 (7/10)) \<and>
   y1 (scored 0 0 20 10 (7/10)) < y2 (scored 0 0 20 10 (7/10)) \<and>
   (\<exists>groups.
      consolidate_groups
        [scored 0 0 10 10 (9/10), scored 8 0 20 10 (8/10), scored 0 0 20 10 (7/10)] (1/2) =
        Inr groups \<and>
      groups =
        [(scored 0 0 20 10 (9/10), [scored 0 0 10 10 (9/10), scored 0 0 20 10 (7/10)]),
         (scored 8 0 20 10 (8/10), [scored 8 0 20 10 (8/10)])] \<and>
      snd (consolidate_detections
        [scored 0 0 10 10 (9/10), scored 8 0 20 10 (8/10), scored 0 0 20 10 (7/10)] (1/2)) =
        Inr (map fst groups) \<and>
      length (map fst groups) \<le> 3 \<and>
      box_area (scored 0 0 20 10 (7/10)) \<le> box_area (scored 0 0 20 10 (9/10)) \<and>
      box_area (scored 0 0 10 10 (9/10)) \<le> box_area (scored 0 0 20 10 (9/10)))"
proof -
  let ?ds = "[scored 0 0 10 10 (9/10), scored 8 0 20 10 (8/10), scored 0 0 20 10 (7/10)]"
  have g: "consolidate_groups ?ds (1/2) =
    Inr [(scored 0 0 20 10 (9/10), [scored 0 0 10 10 (9/10), scored 0 0 20 10 (7/10)]),
         (scored 8 0 20 10 (8/10), [scored 8 0 20 10 (8/10)])]"
    by (simp add: consolidate_groups_def sort_by_confidence_def scored_def Let_def upt_rec
        claimed_def seed_of_def iou_def py_truediv_def union_area_def inter_area_def
        merge_into_def emit_def)
  have wf: "\<forall>d\<in>set ?ds. x1 d < x2 d \<and> y1 d < y2 d"
    by (simp add: scored_def)
  have boxes:
    "x1 (scored 0 0 10 10 (9/10)) < x2 (scored 0 0 10 10 (9/10)) \<and>
     y1 (scored 0 0 10 10 (9/10)) < y2 (scored 0 0 10 10 (9/10)) \<and>
     x1 (scored 8 0 20 10 (8/10)) < x2 (scored 8 0 20 10 (8/10)) \<and>
     y1 (scored 8 0 20 10 (8/10)) < y2 (scored 8 0 20 10 (8/10)) \<and>
     x1 (scored 0 0 20 10 (7/10)) < x2 (scored 0 0 20 10 (7/10)) \<and>
     y1 (scored 0 0 20 10 (7/10)) < y2 (scored 0 0 20 10 (7/10))"
    by (simp add: scored_def)
  have areas:
    "box_area (scored 0 0 20 10 (7/10)) \<le> box_area (scored 0 0 20 10 (9/10)) \<and>
     box_area (scored 0 0 10 10 (9/10)) \<le> box_area (scored 0 0 20 10 (9/10))"
    by (simp add: scored_def box_area_def)
  from consolidate_size_and_area [OF wf, of "1/2"] obtain groups where
    G1: "consolidate_groups ?ds (1/2) = Inr groups"
    and G2: "snd (consolidate_detections ?ds (1/2)) = Inr (map fst groups)"
    and G3: "length (map fst groups) \<le> length ?ds"
    by blast
  from G1 g have G4: "groups =
        [(scored 0 0 20 10 (9/10), [scored 0 0 10 10 (9/10), scored 0 0 20 10 (7/10)]),
         (scored 8 0 20 10 (8/10), [scored 8 0 20 10 (8/10)])]"
    by simp
  from G3 have G5: "length (map fst groups) \<le> 3" by simp
  from G1 G2 G4 G5 areas boxes show ?thesis by blast
qed

section \<open>Consolidating a consolidated list\<close>

lemma outer_loop_Cons_cases:
  assumes "outer_loop detections thr (i # is) (used, consolidated) = Inr (used', consolidated')"
  obtains
    (seed) acc1 used1 where "i < length used" "i < length detections" "\<not> used ! i"
      "inner_loop detections thr [Suc i..<length detections]
         (seed_of (detections ! i), used[i := True]) = Inr (acc1, used1)"
      "outer_loop detections thr is
         (used1, consolidated @ [emit acc1 (detections ! i)]) = Inr (used', consolidated')"
  | (skip) "i < length used" "i < length detections" "used ! i"
      "outer_loop detections thr is (used, consolidated) = Inr (used', consolidated')"
  using assms by (auto split: if_splits sum.splits)

lemma inner_loop_conf:
  "inner_loop detections thr js (acc, used) = Inr (acc', used') \<Longrightarrow>
     \<forall>j\<in>set js. conf (detections ! j) \<le> cconf acc \<Longrightarrow> cconf acc' = cconf acc"
proof (induction js arbitrary: acc used)
  case Nil
  then show ?case by simp
next
  case (Cons j js)
  from Cons.prems(1) show ?case
  proof (cases rule: inner_loop_Cons_cases)
    case merge
    from Cons.prems(2) have c: "cconf (merge_into acc (detections ! j)) = cconf acc"
      by (simp add: merge_into_def)
    with Cons.prems(2) have "\<forall>k\<in>set js. conf (detections ! k) \<le> cconf (merge_into acc (detections ! j))"
      by simp
    from Cons.IH [OF merge(5) this] c show ?thesis by simp
  next
    case skip
    from Cons.prems(2) have "\<forall>k\<in>set js. conf (detections ! k) \<le> cconf acc" by simp
    from Cons.IH [OF skip(4) this] show ?thesis .
  qed
qed

lemma outer_loop_conf_sorted:
  assumes "outer_loop detections thr is (used, consolidated) = Inr (used', consolidated')"
    and "sorted_wrt (\<lambda>a b. conf b \<le> conf a) detections"
    and "sorted_wrt (<) is"
    and "set is \<subseteq> {..<length detections}"
    and "sorted_wrt (\<lambda>a b. conf b \<le> conf a) consolidated"
    and "\<forall>c\<in>set consolidated. \<forall>i\<in>set is. conf (detections ! i) \<le> conf c"
  shows "sorted_wrt (\<lambda>a b. conf b \<le> conf a) consolidated'"
  using assms(1,3-6)
proof (induction "is" arbitrary: used consolidated)
  case Nil
  then show ?case by simp
next
  case (Cons i "is")
  from Cons.prems(2) have asc: "sorted_wrt (<) is" and above: "\<forall>k\<in>set is. i < k" by simp_all
  from Cons.prems(3) have sub: "set is \<subseteq> {..<length detections}" by simp
  from Cons.prems(1) show ?case
  proof (cases rule: outer_loop_Cons_cases)
    case (seed acc1 used1)
    have later: "conf (detections ! k) \<le> conf (detections ! i)"
      if "i < k" "k < length detections" for k
      using sorted_wrt_nth_less [OF assms(2) that] .
    have "\<forall>j\<in>set [Suc i..<length detections].
            conf (detections ! j) \<le> cconf (seed_of (detections ! i))"
      using later by (simp add: seed_of_def)
    from inner_loop_conf [OF seed(4) this]
    have e: "conf (emit acc1 (detections ! i)) = conf (detections ! i)"
      by (simp add: emit_def seed_of_def)
    have s: "sorted_wrt (\<lambda>a b. conf b \<le> conf a) (consolidated @ [emit acc1 (detections ! i)])"
      using Cons.prems(4,5) e by (simp add: sorted_wrt_append)
    have "\<forall>c\<in>set (consolidated @ [emit acc1 (detections ! i)]).
            \<forall>k\<in>set is. conf (detections ! k) \<le> conf c"
      using Cons.prems(5) e above sub later by auto
    from Cons.IH [OF seed(5) asc sub s this] show ?thesis .
  next
    case skip
    from Cons.prems(5) have "\<forall>c\<in>set consolidated. \<forall>k\<in>set is. conf (detections ! k) \<le> conf c"
      by simp
    from Cons.IH [OF skip(4) asc sub Cons.prems(4) this] show ?thesis .
  qed
qed

lemma consolidate_output_sorted:
  assumes "snd (consolidate_detections detections thr) = Inr out"
  shows "sorted_wrt (\<lambda>a b. conf b \<le> conf a) out"
proof (cases "detections = []")
  case True
  with assms show ?thesis by (simp add: consolidate_detections_def)
next
  case False
  let ?s = "sort_by_confidence detections"
  from False assms obtain used' where
    run: "outer_loop ?s thr [0..<length ?s] (replicate (length ?s) False, []) = Inr (used', out)"
    by (auto simp: consolidate_detections_def Let_def split: sum.splits)
  have "sorted (map (\<lambda>x. - conf x) ?s)"
    unfolding sort_by_confidence_def by (rule sorted_sort_key)
  then have "sorted_wrt (\<lambda>a b. conf b \<le> conf a) ?s" by (simp add: sorted_map)
  moreover have "set [0..<length ?s] \<subseteq> {..<length ?s}" by auto
  ultimately show ?thesis by (intro outer_loop_conf_sorted [OF run]) simp_all
qed

lemma inner_loop_no_merge:
  "\<forall>j\<in>set js. j < length used \<and> j < length detections \<and>
        (used ! j \<or> iou_value acc (detections ! j) < thr) \<Longrightarrow>
     inner_loop detections thr js (acc, used) = Inr (acc, used)"
  by (induction js) (auto simp: iou_Inr)

lemma outer_loop_no_merge:
  assumes "length used = length detections" and "distinct is"
    and "set is \<subseteq> {..<length detections}" and "\<forall>i\<in>set is. \<not> used ! i"
    and "\<forall>i\<in>set is. \<forall>j<length detections. i < j \<longrightarrow>
           iou_value (seed_of (detections ! i)) (detections ! j) < thr"
  shows "\<exists>used'. outer_loop detections thr is (used, consolidated) =
           Inr (used', consolidated @ map (\<lambda>i. detections ! i) is)"
  using assms
proof (induction "is" arbitrary: used consolidated)
  case Nil
  then show ?case by simp
next
  case (Cons i "is")
  from Cons.prems have i: "i < length detections" "i < length used" "\<not> used ! i" by auto
  have "\<forall>j\<in>set [Suc i..<length detections].
          j < length (used[i := True]) \<and> j < length detections \<and>
          (used[i := True] ! j \<or> iou_value (seed_of (detections ! i)) (detections ! j) < thr)"
    using Cons.prems(1,5) by auto
  then have inner: "inner_loop detections thr [Suc i..<length detections]
      (seed_of (detections ! i), used[i := True]) = Inr (seed_of (detections ! i), used[i := True])"
    by (rule inner_loop_no_merge)
  have "\<forall>k\<in>set is. \<not> used[i := True] ! k"
  proof
    fix k assume k: "k \<in> set is"
    with Cons.prems(2) have "k \<noteq> i" by auto
    with k Cons.prems(4) show "\<not> used[i := True] ! k" by simp
  qed
  with Cons.IH [of "used[i := True]" "consolidated @ [detections ! i]"] Cons.prems
  obtain used' where "outer_loop detections thr is (used[i := True], consolidated @ [detections ! i]) =
      Inr (used', (consolidated @ [detections ! i]) @ map (\<lambda>i. detections ! i) is)"
    by auto
  with i inner show ?case by (simp add: emit_seed)
qed

text \<open>
  C2, as the claim states it, fails at the threshold 0.5: the seed (0,0)-(10,10) passes
  over (8,0)-(20,10) (IoU 0.1), then merges (0,0)-(20,10) and grows to it, so the output
  holds (0,0)-(20,10) and (8,0)-(20,10), whose IoU is 0.6; a second run merges them.
\<close>

theorem consolidate_not_idempotent:
  "(0::real) < 1/2 \<and> (1/2::real) \<le> 1 \<and>
   snd (consolidate_detections
          [scored 0 0 10 10 (9/10), scored 8 0 20 10 (8/10), scored 0 0 20 10 (7/10)] (1/2)) =
     Inr [scored 0 0 20 10 (9/10), scored 8 0 20 10 (8/10)] \<and>
   snd (consolidate_detections [scored 0 0 20 10 (9/10), scored 8 0 20 10 (8/10)] (1/2)) =
     Inr [scored 0 0 20 10 (9/10)] \<and>
   [scored 0 0 20 10 (9/10)] \<noteq> [scored 0 0 20 10 (9/10), scored 8 0 20 10 (8/10)]"
  by (simp add: consolidate_detections_def sort_by_confidence_def scored_def Let_def upt_rec
      seed_of_def iou_def py_truediv_def union_area_def inter_area_def merge_into_def emit_def)

text \<open>
  C2, amended: when no output detection, taken as accumulator, has an IoU of at least the
  threshold with a later output detection, applying \<^verbatim>\<open>consolidate_detections\<close> to its own
  output returns that output unchanged (and leaves the list it was given in the same
  order).
\<close>

theorem consolidate_twice_when_outputs_apart:
  assumes "snd (consolidate_detections detections iou_threshold) = Inr out"
    and "\<forall>i<length out. \<forall>j<length out. i < j \<longrightarrow>
           iou_value (seed_of (out ! i)) (out ! j) < iou_threshold"
  shows "consolidate_detections out iou_threshold = (out, Inr out)"
proof (cases "out = []")
  case True
  then show ?thesis by (simp add: consolidate_detections_def)
next
  case False
  have "sorted (map (\<lambda>x. - conf x) out)"
    using consolidate_output_sorted [OF assms(1)] by (simp add: sorted_map)
  then have s: "sort_by_confidence out = out"
    unfolding sort_by_confidence_def by (rule sort_key_id_if_sorted)
  have "\<exists>used'. outer_loop out iou_threshold [0..<length out] (replicate (length out) False, []) =
           Inr (used', [] @ map (\<lambda>i. out ! i) [0..<length out])"
    by (rule outer_loop_no_merge) (use assms(2) in auto)
  then obtain used' where
    "outer_loop out iou_threshold [0..<length out] (replicate (length out) False, []) =
       Inr (used', out)"
    by (auto simp: map_nth)
  with False s show ?thesis by (simp add: consolidate_detections_def Let_def)
qed


theorem consolidate_twice_when_outputs_apart_witness:
  "snd (consolidate_detections
          [scored 0 0 10 10 (9/10), scored 50 50 60 60 (8/10), scored 0 0 20 10 (7/10)] (1/2)) =
     Inr [scored 0 0 20 10 (9/10), scored 50 50 60 60 (8/10)] \<and>
   iou_value (seed_of (scored 0 0 20 10 (9/10))) (scored 50 50 60 60 (8/10)) < 1/2 \<and>
   consolidate_detections [scored 0 0 20 10 (9/10), scored 50 50 60 60 (8/10)] (1/2) =
     ([scored 0 0 20 10 (9/10), scored 50 50 60 60 (8/10)],
      Inr [scored 0 0 20 10 (9/10), scored 50 50 60 60 (8/10)])"
proof -
  let ?out = "[scored 0 0 20 10 (9/10), scored 50 50 60 60 (8/10)]"
  have first: "snd (consolidate_detections
          [scored 0 0 10 10 (9/10), scored 50 50 60 60 (8/10), scored 0 0 20 10 (7/10)] (1/2)) =
     Inr ?out"
    by (simp add: consolidate_detections_def sort_by_confidence_def scored_def Let_def upt_rec
        seed_of_def iou_def py_truediv_def union_area_def inter_area_def merge_into_def emit_def)
  have apart: "iou_value (seed_of (scored 0 0 20 10 (9/10))) (scored 50 50 60 60 (8/10)) < 1/2"
    by (simp add: iou_value_def union_area_def inter_area_def seed_of_def scored_def)
  then have "\<forall>i<length ?out. \<forall>j<length ?out. i < j \<longrightarrow>
           iou_value (seed_of (?out ! i)) (?out ! j) < 1/2"
    by (auto simp: less_Suc_eq)
  from consolidate_twice_when_outputs_apart [OF first this] first apart
  show ?thesis by blast
qed

end
